theory Spec2Isabelle
  imports Main "HOL-Library.Sublist"
begin

section \<open>Python strings\<close>

text \<open>
  A Python \<open>str\<close> is a sequence of Unicode code points and \<open>len\<close> counts code points.
  A string is therefore modelled as a list of code points (natural numbers); \<open>ascii\<close>
  turns a literal into such a list.
\<close>

type_synonym str = "nat list"

definition ascii :: "string \<Rightarrow> str" where
  "ascii s = map of_char s"

definition NL :: nat where
  "NL = 10"

definition SP :: nat where
  "SP = 32"

definition NUL :: nat where
  "NUL = 0"

text \<open>
  \<open>str.isspace\<close>, \<open>str.strip()\<close>, \<open>str.split()\<close> and the regular expression class
  \<open>\s\<close> (on a \<open>str\<close> pattern) all use the same set of white-space code points.
\<close>

definition isspace :: "nat \<Rightarrow> bool" where
  "isspace c \<longleftrightarrow> c \<in> {0x09, 0x0A, 0x0B, 0x0C, 0x0D, 0x1C, 0x1D, 0x1E, 0x1F, 0x20, 0x85, 0xA0,
     0x1680, 0x2000, 0x2001, 0x2002, 0x2003, 0x2004, 0x2005, 0x2006, 0x2007, 0x2008, 0x2009,
     0x200A, 0x2028, 0x2029, 0x202F, 0x205F, 0x3000}"

abbreviation len :: "'a list \<Rightarrow> int" where
  "len xs \<equiv> int (length xs)"

text \<open>
  \<open>re.sub(r'C+', r, text)\<close> for a character class \<open>C\<close>: scanning from the left, every
  maximal run of characters of the class is replaced by \<open>r\<close>.
\<close>

function re_sub_runs :: "(nat \<Rightarrow> bool) \<Rightarrow> str \<Rightarrow> str \<Rightarrow> str" where
  "re_sub_runs P r [] = []"
| "re_sub_runs P r (c # cs) =
     (if P c then r @ re_sub_runs P r (dropWhile P cs) else c # re_sub_runs P r cs)"
  by pat_completeness auto
termination
  by (relation "measure (\<lambda>(P, r, s). length s)")
     (auto simp: less_Suc_eq_le length_dropWhile_le)

text \<open>
  \<open>text.replace(old, new)\<close>: every non-overlapping occurrence of \<open>old\<close>, found from the
  left, is replaced. Both call sites pass a non-empty literal for \<open>old\<close>; for an empty
  \<open>old\<close> (where Python inserts \<open>new\<close> between all characters) the text is returned as it is.
\<close>

function replace_str :: "str \<Rightarrow> str \<Rightarrow> str \<Rightarrow> str" where
  "replace_str old new [] = []"
| "replace_str old new (c # cs) =
     (if old \<noteq> [] \<and> prefix old (c # cs)
      then new @ replace_str old new (drop (length old) (c # cs))
      else c # replace_str old new cs)"
  by pat_completeness auto
termination
  by (relation "measure (\<lambda>(old, new, s). length s)") auto

text \<open>
  \<open>text.split(sep)\<close> with a separator: the pieces between the non-overlapping occurrences
  of \<open>sep\<close>, found from the left; the result always has at least one piece. Both call
  sites pass a non-empty literal (Python raises ValueError for an empty separator; here
  the text is returned as the only piece).
\<close>

function split_sep :: "str \<Rightarrow> str \<Rightarrow> str list" where
  "split_sep sep [] = [[]]"
| "split_sep sep (c # cs) =
     (if sep \<noteq> [] \<and> prefix sep (c # cs)
      then [] # split_sep sep (drop (length sep) (c # cs))
      else (case split_sep sep cs of
              [] \<Rightarrow> [[c]]
            | l # ls \<Rightarrow> (c # l) # ls))"
  by pat_completeness auto
termination
  by (relation "measure (\<lambda>(sep, s). length s)") auto

text \<open>\<open>text.strip()\<close>: white space removed from both ends.\<close>

definition strip :: "str \<Rightarrow> str" where
  "strip s = rev (dropWhile isspace (rev (dropWhile isspace s)))"

text \<open>\<open>text.split()\<close>: the maximal runs of non-white-space characters.\<close>

function split_ws :: "str \<Rightarrow> str list" where
  "split_ws s =
     (case dropWhile isspace s of
        [] \<Rightarrow> []
      | c # cs \<Rightarrow> takeWhile (\<lambda>x. \<not> isspace x) (c # cs)
                  # split_ws (dropWhile (\<lambda>x. \<not> isspace x) (c # cs)))"
  by pat_completeness auto
termination
proof (relation "measure length", goal_cases)
  case 1
  show ?case by simp
next
  case (2 s c cs)
  have "\<not> isspace c"
    using hd_dropWhile [of isspace s] 2 by simp
  then have "length (dropWhile (\<lambda>x. \<not> isspace x) (c # cs)) \<le> length cs"
    by (simp add: length_dropWhile_le)
  moreover have "length (c # cs) \<le> length s"
    using length_dropWhile_le [of isspace s] 2 by simp
  ultimately show ?case by simp
qed

declare split_ws.simps [simp del]

text \<open>\<open>sep.join(xs)\<close>.\<close>

fun join :: "str \<Rightarrow> str list \<Rightarrow> str" where
  "join sep [] = []"
| "join sep [x] = x"
| "join sep (x # y # ys) = x @ sep @ join sep (y # ys)"

text \<open>
  \<open>xs[-k:]\<close>: the slice starts at \<open>len(xs) - k\<close>, clamped to the start of the list.
\<close>

definition slice_last :: "int \<Rightarrow> 'a list \<Rightarrow> 'a list" where
  "slice_last k xs = drop (nat (max 0 (len xs - k))) xs"

text \<open>The decimal text of an integer, as an f-string field prints it.\<close>

fun str_nat :: "nat \<Rightarrow> str" where
  "str_nat n = (if n < 10 then [48 + n] else str_nat (n div 10) @ [48 + n mod 10])"

declare str_nat.simps [simp del]

definition str_int :: "int \<Rightarrow> str" where
  "str_int i = (if i < 0 then 45 # str_nat (nat (- i)) else str_nat (nat i))"

text \<open>\<open>os.path.basename\<close> (the POSIX version): what follows the last slash.\<close>

definition basename :: "str \<Rightarrow> str" where
  "basename p = rev (takeWhile (\<lambda>c. c \<noteq> 47) (rev p))"

section \<open>The document processor\<close>

datatype meta_value = MStr str | MInt int

record DocumentChunk =
  dc_id :: str
  dc_text :: str
  dc_metadata :: "str \<rightharpoonup> meta_value"

subsection \<open>clean_text\<close>

definition clean_text :: "str \<Rightarrow> str" where
  "clean_text text0 =
     (let text1 = re_sub_runs isspace [SP] text0;
          text2 = re_sub_runs (\<lambda>c. c = NL) [NL] text1;
          text3 = replace_str [NUL] [] text2;
          lines = split_sep [NL] text3;
          cleaned_lines = map strip (filter (\<lambda>line. len (strip line) > 10) lines)
      in join [NL] cleaned_lines)"

text \<open>
  The normaliser as the specification allows it to be simplified: the white-space
  collapse, the removal of null characters and the filter of short lines, without the
  second (newline) pass.
\<close>

definition clean_text_single_pass :: "str \<Rightarrow> str" where
  "clean_text_single_pass text0 =
     (let text1 = re_sub_runs isspace [SP] text0;
          text3 = replace_str [NUL] [] text1;
          lines = split_sep [NL] text3;
          cleaned_lines = map strip (filter (\<lambda>line. len (strip line) > 10) lines)
      in join [NL] cleaned_lines)"

subsection \<open>chunk_text\<close>

text \<open>
  \<open>chunk_size\<close> and \<open>chunk_overlap\<close> are read from \<open>rag_config\<close>, a module outside the
  sources; they are parameters here (Python integers).
\<close>

definition make_chunk :: "str \<Rightarrow> int \<Rightarrow> str \<Rightarrow> DocumentChunk" where
  "make_chunk source chunk_id current_chunk =
     \<lparr> dc_id = source @ ascii ''_chunk_'' @ str_int chunk_id,
       dc_text = strip current_chunk,
       dc_metadata = [ascii ''source'' \<mapsto> MStr source,
                      ascii ''chunk_id'' \<mapsto> MInt chunk_id,
                      ascii ''document_type'' \<mapsto> MStr (ascii ''tupa'')] \<rparr>"

type_synonym chunker_state = "DocumentChunk list \<times> str \<times> int"

text \<open>The body of the loop over the paragraphs; the state is
  \<open>(chunks, current_chunk, chunk_id)\<close>.\<close>

fun chunk_step :: "int \<Rightarrow> int \<Rightarrow> str \<Rightarrow> chunker_state \<Rightarrow> str \<Rightarrow> chunker_state" where
  "chunk_step chunk_size chunk_overlap source (chunks, current_chunk, chunk_id) paragraph =
     (if len current_chunk + len paragraph > chunk_size then
        (if current_chunk \<noteq> [] then
           (let chunks' = chunks @ [make_chunk source chunk_id current_chunk];
                chunk_id' = chunk_id + 1
            in if chunk_overlap > 0 then
                 (let words = split_ws current_chunk;
                      overlap_words = (if len words > chunk_overlap
                                       then slice_last chunk_overlap words else words)
                  in (chunks', join [SP] overlap_words @ [SP] @ paragraph, chunk_id'))
               else (chunks', paragraph, chunk_id'))
         else (chunks, paragraph, chunk_id))
      else (chunks,
            current_chunk @ (if current_chunk \<noteq> [] then [NL, NL] @ paragraph else paragraph),
            chunk_id))"

fun chunk_loop :: "int \<Rightarrow> int \<Rightarrow> str \<Rightarrow> chunker_state \<Rightarrow> str list \<Rightarrow> chunker_state" where
  "chunk_loop chunk_size chunk_overlap source st [] = st"
| "chunk_loop chunk_size chunk_overlap source st (paragraph # paragraphs) =
     chunk_loop chunk_size chunk_overlap source
       (chunk_step chunk_size chunk_overlap source st paragraph) paragraphs"

text \<open>The emission after the loop.\<close>

fun chunk_finish :: "str \<Rightarrow> chunker_state \<Rightarrow> DocumentChunk list" where
  "chunk_finish source (chunks, current_chunk, chunk_id) =
     (if strip current_chunk \<noteq> []
      then chunks @ [make_chunk source chunk_id current_chunk]
      else chunks)"

definition chunk_text :: "int \<Rightarrow> int \<Rightarrow> str \<Rightarrow> str \<Rightarrow> DocumentChunk list" where
  "chunk_text chunk_size chunk_overlap text0 source =
     (let paragraphs = split_sep [NL, NL] text0
      in chunk_finish source
           (chunk_loop chunk_size chunk_overlap source ([], [], 0) paragraphs))"

subsection \<open>process_pdf_file\<close>

text \<open>
  \<open>extract\<close> stands for \<open>extract_text_from_pdf\<close>, which reads the file and returns the
  empty string when it fails.
\<close>

definition source_name :: "str \<Rightarrow> str" where
  "source_name pdf_path = replace_str (ascii ''.pdf'') [] (basename pdf_path)"

definition process_pdf_file :: "(str \<Rightarrow> str) \<Rightarrow> int \<Rightarrow> int \<Rightarrow> str \<Rightarrow> DocumentChunk list" where
  "process_pdf_file extract chunk_size chunk_overlap pdf_path =
     (let raw_text = extract pdf_path
      in if raw_text = [] then []
         else chunk_text chunk_size chunk_overlap (clean_text raw_text) (source_name pdf_path))"

section \<open>Auxiliary notions used in the statements\<close>

text \<open>The text after the white-space collapse and the removal of null characters.\<close>

definition collapsed :: "str \<Rightarrow> str" where
  "collapsed s = filter (\<lambda>c. c \<noteq> NUL) (re_sub_runs isspace [SP] s)"

text \<open>\<open>sub in s\<close>: the string \<open>sub\<close> occurs in \<open>s\<close>.\<close>

fun contains_str :: "str \<Rightarrow> str \<Rightarrow> bool" where
  "contains_str sub [] = (sub = [])"
| "contains_str sub (c # cs) = (prefix sub (c # cs) \<or> contains_str sub cs)"

text \<open>
  The last \<open>n\<close> words of a list of words, or all of them if there are fewer: the wording
  of the specification for the overlap, to be compared with the slice of the source.
\<close>

definition last_words :: "nat \<Rightarrow> str list \<Rightarrow> str list" where
  "last_words n ws = rev (take n (rev ws))"

text \<open>
  The fragments of a list carry the identifiers and the \<open>chunk_id\<close> values of their
  positions; a loop state is counted when, in addition, its counter is the number of
  fragments emitted so far.
\<close>

definition numbered :: "str \<Rightarrow> DocumentChunk list \<Rightarrow> bool" where
  "numbered source chunks \<longleftrightarrow>
     (\<forall>i < length chunks.
        dc_id (chunks ! i) = source @ ascii ''_chunk_'' @ str_int (int i)
        \<and> dc_metadata (chunks ! i) (ascii ''chunk_id'') = Some (MInt (int i)))"

definition counted :: "str \<Rightarrow> chunker_state \<Rightarrow> bool" where
  "counted source st \<longleftrightarrow> numbered source (fst st) \<and> snd (snd st) = len (fst st)"

text \<open>
  What holds of the text \<open>t\<close> of the fragment at position \<open>i\<close>, for the size bound \<open>cs\<close>,
  the overlap \<open>ov\<close> and the paragraphs \<open>ps\<close> of the document; and what holds of the
  accumulator between two paragraphs.
\<close>

definition fragment_ok :: "int \<Rightarrow> int \<Rightarrow> str list \<Rightarrow> nat \<Rightarrow> str \<Rightarrow> bool" where
  "fragment_ok cs ov ps i t \<longleftrightarrow>
     len t \<le> cs
     \<or> (\<exists>p \<in> set ps. len p > cs \<and> t = strip p)
     \<or> (contains_str [NL, NL] t \<and> len t \<le> cs + 2)
     \<or> (ov > 0 \<and> 1 \<le> i)"

definition acc_ok :: "int \<Rightarrow> int \<Rightarrow> str list \<Rightarrow> nat \<Rightarrow> str \<Rightarrow> bool" where
  "acc_ok cs ov ps n cur \<longleftrightarrow>
     cur = []
     \<or> cur \<in> set ps
     \<or> (len cur \<le> cs + 2 \<and> (\<exists>a b. cur = a @ [NL, NL] @ b))
     \<or> (ov > 0 \<and> 1 \<le> n)"

definition bounded_state :: "int \<Rightarrow> int \<Rightarrow> str list \<Rightarrow> chunker_state \<Rightarrow> bool" where
  "bounded_state cs ov ps st \<longleftrightarrow>
     (\<forall>i < length (fst st). fragment_ok cs ov ps i (dc_text (fst st ! i)))
     \<and> acc_ok cs ov ps (length (fst st)) (fst (snd st))"

text \<open>
  All white space of a text is single spaces: every white-space character is a space and
  is not followed by another white-space character.
\<close>

fun spaced_ok :: "str \<Rightarrow> bool" where
  "spaced_ok [] = True"
| "spaced_ok [c] = (isspace c \<longrightarrow> c = SP)"
| "spaced_ok (c # d # cs) = ((isspace c \<longrightarrow> c = SP \<and> \<not> isspace d) \<and> spaced_ok (d # cs))"

text \<open>The definitions unfolded when a concrete input is evaluated.\<close>

lemmas eval_defs = ascii_def isspace_def NL_def SP_def NUL_def strip_def clean_text_def
  chunk_text_def make_chunk_def source_name_def basename_def slice_last_def str_int_def
  process_pdf_file_def last_words_def Let_def

section \<open>Facts about the string primitives\<close>

lemma set_re_sub_runs:
  "set (re_sub_runs P r s) \<subseteq> set r \<union> {c \<in> set s. \<not> P c}"
proof (induction P r s rule: re_sub_runs.induct)
  case (1 P r)
  show ?case by simp
next
  case (2 P r c cs)
  show ?case
  proof (cases "P c")
    case True
    have "set (dropWhile P cs) \<subseteq> set cs"
      by (meson set_dropWhileD subsetI)
    with 2(1) [OF True] True show ?thesis by auto
  next
    case False
    with 2(2) [OF False] show ?thesis by auto
  qed
qed

lemma re_sub_runs_ident:
  "\<forall>c \<in> set s. \<not> P c \<Longrightarrow> re_sub_runs P r s = s"
  by (induction s) simp_all

lemma replace_str_single:
  "replace_str [c0] [] s = filter (\<lambda>c. c \<noteq> c0) s"
proof (induction s)
  case Nil
  show ?case by simp
next
  case (Cons c cs)
  show ?case
  proof (cases "c = c0")
    case True
    then show ?thesis using Cons by simp
  next
    case False
    then show ?thesis using Cons by simp
  qed
qed

lemma split_sep_absent:
  "a \<notin> set s \<Longrightarrow> split_sep (a # sep) s = [s]"
  by (induction s) auto

lemma set_strip: "set (strip s) \<subseteq> set s"
proof -
  have "set (strip s) \<subseteq> set (dropWhile isspace s)"
    unfolding strip_def by (auto dest: set_dropWhileD)
  also have "\<dots> \<subseteq> set s"
    by (auto dest: set_dropWhileD)
  finally show ?thesis .
qed

lemma length_strip: "length (strip s) \<le> length s"
proof -
  have "length (strip s) \<le> length (dropWhile isspace s)"
    unfolding strip_def using length_dropWhile_le [of isspace "rev (dropWhile isspace s)"]
    by simp
  also have "\<dots> \<le> length s"
    by (rule length_dropWhile_le)
  finally show ?thesis .
qed

section \<open>The normaliser never outputs a newline\<close>

lemma no_newline_after_collapse:
  "NL \<notin> set (re_sub_runs isspace [SP] s)"
proof
  assume "NL \<in> set (re_sub_runs isspace [SP] s)"
  with set_re_sub_runs [of isspace "[SP]" s]
  have "NL = SP \<or> \<not> isspace NL" by auto
  then show False by (simp add: NL_def SP_def isspace_def)
qed

lemma no_newline_collapsed: "NL \<notin> set (collapsed s)"
  using no_newline_after_collapse [of s] by (simp add: collapsed_def)

lemma clean_text_single_pass_eq:
  "clean_text_single_pass s =
     (if len (strip (collapsed s)) > 10 then strip (collapsed s) else [])"
proof -
  have "split_sep [NL] (collapsed s) = [collapsed s]"
    using no_newline_collapsed by (rule split_sep_absent)
  then show ?thesis
    by (simp add: clean_text_single_pass_def replace_str_single collapsed_def Let_def)
qed

lemma clean_text_eq:
  "clean_text s = (if len (strip (collapsed s)) > 10 then strip (collapsed s) else [])"
proof -
  have "\<forall>c \<in> set (re_sub_runs isspace [SP] s). \<not> c = NL"
    using no_newline_after_collapse [of s] by blast
  then have "re_sub_runs (\<lambda>c. c = NL) [NL] (re_sub_runs isspace [SP] s)
      = re_sub_runs isspace [SP] s"
    by (rule re_sub_runs_ident)
  moreover have "split_sep [NL] (collapsed s) = [collapsed s]"
    using no_newline_collapsed by (rule split_sep_absent)
  ultimately show ?thesis
    by (simp add: clean_text_def replace_str_single collapsed_def Let_def)
qed

lemma no_newline_clean_text: "NL \<notin> set (clean_text s)"
proof (cases "len (strip (collapsed s)) > 10")
  case True
  then have "clean_text s = strip (collapsed s)"
    by (simp only: clean_text_eq if_True)
  then show ?thesis
    using no_newline_collapsed [of s] set_strip [of "collapsed s"] by auto
next
  case False
  then have "clean_text s = []"
    by (simp only: clean_text_eq if_False)
  then show ?thesis by simp
qed

lemma chunk_text_single_paragraph:
  "NL \<notin> set t \<Longrightarrow> chunk_text cs ov t src = chunk_finish src ([], t, 0)"
  by (simp add: chunk_text_def split_sep_absent)

section \<open>Claims on the normaliser and its composition with the chunker\<close>

text \<open>
  C9. The second regular-expression pass of \<open>clean_text\<close> (the newline collapse) is dead:
  for every input, \<open>clean_text\<close> returns what the normaliser without that pass returns.
\<close>

theorem newline_pass_is_dead: "clean_text s = clean_text_single_pass s"
  by (simp only: clean_text_eq clean_text_single_pass_eq)

text \<open>
  C10. The output of \<open>clean_text\<close> contains no newline, so the chunker finds no blank-line
  separator in it, takes it as a single paragraph and returns at most one fragment,
  whatever the source name and the configuration.
\<close>

theorem normalized_text_single_fragment:
  "NL \<notin> set (clean_text x)
   \<and> split_sep [NL, NL] (clean_text x) = [clean_text x]
   \<and> length (chunk_text chunk_size chunk_overlap (clean_text x) s) \<le> 1"
  using no_newline_clean_text [of x]
  by (simp add: chunk_text_single_paragraph split_sep_absent)

section \<open>Identifiers and indices of the fragments\<close>

lemma dc_id_make_chunk [simp]:
  "dc_id (make_chunk source n cur) = source @ ascii ''_chunk_'' @ str_int n"
  by (simp add: make_chunk_def)

lemma dc_text_make_chunk [simp]:
  "dc_text (make_chunk source n cur) = strip cur"
  by (simp add: make_chunk_def)

lemma dc_metadata_make_chunk [simp]:
  "dc_metadata (make_chunk source n cur) (ascii ''chunk_id'') = Some (MInt n)"
  by (simp add: make_chunk_def ascii_def)

lemma numbered_snoc:
  "numbered source chunks \<Longrightarrow>
   numbered source (chunks @ [make_chunk source (len chunks) cur])"
  by (simp add: numbered_def nth_append less_Suc_eq)

lemma counted_step:
  assumes "counted source st"
  shows "counted source (chunk_step cs ov source st p)"
proof -
  obtain chunks cur cid where st: "st = (chunks, cur, cid)"
    by (cases st) auto
  from assms st have n: "numbered source chunks" and c: "cid = len chunks"
    by (simp_all add: counted_def)
  from numbered_snoc [OF n] c
  have "numbered source (chunks @ [make_chunk source cid cur])" by simp
  with n c show ?thesis
    by (simp add: st counted_def Let_def)
qed

lemma counted_loop:
  "counted source st \<Longrightarrow> counted source (chunk_loop cs ov source st ps)"
  by (induction ps arbitrary: st) (simp_all add: counted_step)

lemma numbered_finish:
  assumes "counted source st"
  shows "numbered source (chunk_finish source st)"
proof -
  obtain chunks cur cid where st: "st = (chunks, cur, cid)"
    by (cases st) auto
  from assms st have n: "numbered source chunks" and c: "cid = len chunks"
    by (simp_all add: counted_def)
  from numbered_snoc [OF n] c
  have "numbered source (chunks @ [make_chunk source cid cur])" by simp
  with n show ?thesis by (simp add: st)
qed

lemma numbered_chunk_text: "numbered source (chunk_text cs ov t source)"
proof -
  have "counted source ([], [], 0)"
    by (simp add: counted_def numbered_def)
  then show ?thesis
    unfolding chunk_text_def Let_def by (intro numbered_finish counted_loop)
qed


text \<open>
  C6. For a document producing \<open>N\<close> fragments, the \<open>chunk_id\<close> values of the metadata are
  \<open>0, ..., N - 1\<close> in emission order, and the identifier of the fragment at position
  \<open>i\<close> is the source name, then \<open>_chunk_\<close>, then \<open>i\<close> in decimal, for every text, source
  name and configuration.
\<close>

theorem chunk_ids_contiguous:
  "map (\<lambda>c. dc_metadata c (ascii ''chunk_id'')) (chunk_text chunk_size chunk_overlap t source)
     = map (\<lambda>i. Some (MInt (int i))) [0 ..< length (chunk_text chunk_size chunk_overlap t source)]
   \<and> map dc_id (chunk_text chunk_size chunk_overlap t source)
     = map (\<lambda>i. source @ ascii ''_chunk_'' @ str_int (int i))
         [0 ..< length (chunk_text chunk_size chunk_overlap t source)]"
proof -
  let ?cs = "chunk_text chunk_size chunk_overlap t source"
  have n: "\<And>i. i < length ?cs \<Longrightarrow>
      dc_id (?cs ! i) = source @ ascii ''_chunk_'' @ str_int (int i)
      \<and> dc_metadata (?cs ! i) (ascii ''chunk_id'') = Some (MInt (int i))"
    using numbered_chunk_text [of source chunk_size chunk_overlap t]
    unfolding numbered_def by blast
  have "map (\<lambda>c. dc_metadata c (ascii ''chunk_id'')) ?cs
      = map (\<lambda>i. Some (MInt (int i))) [0 ..< length ?cs]"
    by (rule nth_equalityI) (simp_all add: n)
  moreover have "map dc_id ?cs
      = map (\<lambda>i. source @ ascii ''_chunk_'' @ str_int (int i)) [0 ..< length ?cs]"
    by (rule nth_equalityI) (simp_all add: n)
  ultimately show ?thesis by (rule conjI)
qed

section \<open>Inputs on which the code departs from the specification\<close>

text \<open>
  C3. The specification says that the output of \<open>clean_text\<close> never has two consecutive
  spaces. The null characters are removed after the white-space collapse, so a null
  character between two spaces leaves them side by side: on the input
  \<open>hello world\<close>, a space, a null character, a space and \<open>again\<close>, the output has two
  consecutive spaces. (On a text without null characters it has none, see
  \<open>clean_text_single_spaces_without_null\<close>.)
\<close>

theorem clean_text_leaves_double_space:
  "clean_text (ascii ''hello world '' @ [NUL] @ ascii '' again'') = ascii ''hello world  again''"
  by (simp add: eval_defs)

text \<open>
  C2. The specification says that \<open>clean_text\<close> is idempotent. On the same input a second
  application collapses the two spaces left by the first, so the two results differ.
  (On a text without null characters the two results are equal, see
  \<open>clean_text_idempotent_without_null\<close>.)
\<close>

theorem clean_text_not_idempotent:
  "clean_text (clean_text (ascii ''hello world '' @ [NUL] @ ascii '' again''))
     \<noteq> clean_text (ascii ''hello world '' @ [NUL] @ ascii '' again'')"
  by (simp add: eval_defs)

text \<open>
  C4. The specification says that every fragment has a non-empty text. The emission
  inside the loop tests the accumulator for emptiness before trimming it, where the
  emission after the loop tests the trimmed accumulator: with a maximum size of 3, the
  text of two spaces, a blank line and \<open>abcdef\<close> gives a first fragment with empty text.
\<close>

theorem mid_loop_emits_empty_text:
  "map dc_text (chunk_text 3 0 (ascii ''  '' @ [NL, NL] @ ascii ''abcdef'') (ascii ''doc''))
     = [[], ascii ''abcdef'']"
  by (simp add: eval_defs)

text \<open>
  The same emission inside the loop turns a blank paragraph into a fragment: with a
  maximum size of 1, the text of two spaces, a blank line and two spaces gives one fragment
  with empty text.
\<close>

lemma blank_paragraphs_emit_empty_text:
  "map dc_text (chunk_text 1 0 (ascii ''  '' @ [NL, NL] @ ascii ''  '') (ascii ''doc'')) = [[]]"
  by (simp add: eval_defs)

text \<open>
  C8. The specification says that the source name is the base name of the path without
  its \<open>.pdf\<close> suffix. The code removes every occurrence of \<open>.pdf\<close> in the base name: for
  \<open>docs/tupa.pdf_v2.pdf\<close> the source name is \<open>tupa_v2\<close>, not \<open>tupa.pdf_v2\<close>, and the
  fragment identifiers are built on it.
\<close>

theorem source_name_removes_inner_pdf:
  "source_name (ascii ''docs/tupa.pdf_v2.pdf'') = ascii ''tupa_v2''
   \<and> map dc_id (process_pdf_file (\<lambda>p. ascii ''Texto del procedimiento'') 1000 0
                  (ascii ''docs/tupa.pdf_v2.pdf''))
       = [ascii ''tupa_v2_chunk_0'']"
  by (simp add: eval_defs str_nat.simps)

section \<open>The size of the fragments\<close>

lemma contains_str_self: "contains_str sub (sub @ b)"
proof (cases "sub @ b")
  case Nil
  then show ?thesis by simp
next
  case (Cons c cs)
  have "prefix sub (sub @ b)" by simp
  then show ?thesis unfolding Cons by simp
qed

lemma contains_str_middle: "contains_str sub (a @ sub @ b)"
proof (induction a)
  case Nil
  show ?case using contains_str_self by simp
next
  case (Cons x a)
  then show ?case by simp
qed

lemma isspace_NL: "isspace NL"
  by (simp add: isspace_def NL_def)

lemma length_strip_le_lstrip: "length (strip s) \<le> length (dropWhile isspace s)"
  unfolding strip_def using length_dropWhile_le [of isspace "rev (dropWhile isspace s)"]
  by simp

lemma strip_joined:
  "length (strip (a @ [NL, NL] @ b)) + 2 \<le> length (a @ [NL, NL] @ b)
   \<or> contains_str [NL, NL] (strip (a @ [NL, NL] @ b))"
proof (cases "\<forall>x \<in> set a. isspace x")
  case True
  then have "dropWhile isspace (a @ [NL, NL] @ b) = dropWhile isspace ([NL, NL] @ b)"
    by (intro dropWhile_append2) simp
  also have "\<dots> = dropWhile isspace b"
    by (simp add: isspace_NL)
  finally have "length (dropWhile isspace (a @ [NL, NL] @ b)) \<le> length b"
    by (simp add: length_dropWhile_le)
  with length_strip_le_lstrip [of "a @ [NL, NL] @ b"] show ?thesis by simp
next
  case False
  then obtain x where x: "x \<in> set a" "\<not> isspace x" by blast
  define a' where "a' = dropWhile isspace a"
  have l: "dropWhile isspace (a @ [NL, NL] @ b) = a' @ [NL, NL] @ b"
    unfolding a'_def using x by (rule dropWhile_append1)
  have la: "length a' \<le> length a"
    unfolding a'_def by (rule length_dropWhile_le)
  have s: "strip (a @ [NL, NL] @ b) = rev (dropWhile isspace (rev b @ [NL, NL] @ rev a'))"
    unfolding strip_def l by simp
  show ?thesis
  proof (cases "\<forall>y \<in> set b. isspace y")
    case True
    then have "dropWhile isspace (rev b @ [NL, NL] @ rev a')
        = dropWhile isspace ([NL, NL] @ rev a')"
      by (intro dropWhile_append2) simp
    also have "\<dots> = dropWhile isspace (rev a')"
      by (simp add: isspace_NL)
    finally have "length (strip (a @ [NL, NL] @ b)) \<le> length (rev a')"
      unfolding s using length_dropWhile_le [of isspace "rev a'"] by simp
    with la show ?thesis by simp
  next
    case False
    then obtain y where y: "y \<in> set (rev b)" "\<not> isspace y" by auto
    have "dropWhile isspace (rev b @ [NL, NL] @ rev a')
        = dropWhile isspace (rev b) @ [NL, NL] @ rev a'"
      using y by (rule dropWhile_append1)
    then have "strip (a @ [NL, NL] @ b) = a' @ [NL, NL] @ rev (dropWhile isspace (rev b))"
      unfolding s by simp
    then show ?thesis
      using contains_str_middle [of "[NL, NL]" a' "rev (dropWhile isspace (rev b))"] by simp
  qed
qed

lemma emit_ok:
  assumes "acc_ok cs ov ps n cur" and "cur \<noteq> []"
  shows "fragment_ok cs ov ps n (strip cur)"
proof -
  consider (par) "cur \<in> set ps"
    | (joined) a b where "len cur \<le> cs + 2" "cur = a @ [NL, NL] @ b"
    | (overlap) "ov > 0" "1 \<le> n"
    using assms unfolding acc_ok_def by blast
  then show ?thesis
  proof cases
    case par
    show ?thesis
    proof (cases "len cur > cs")
      case True
      with par show ?thesis unfolding fragment_ok_def by blast
    next
      case False
      with length_strip [of cur] have "len (strip cur) \<le> cs" by simp
      then show ?thesis unfolding fragment_ok_def by blast
    qed
  next
    case joined
    from strip_joined [of a b] joined
    have "len (strip cur) \<le> cs \<or> contains_str [NL, NL] (strip cur)"
      by auto
    moreover from length_strip [of cur] joined(1) have "len (strip cur) \<le> cs + 2"
      by simp
    ultimately show ?thesis unfolding fragment_ok_def by blast
  next
    case overlap
    then show ?thesis unfolding fragment_ok_def by blast
  qed
qed

lemma fragments_snoc:
  assumes "\<forall>i < length chunks. fragment_ok cs ov ps i (dc_text (chunks ! i))"
    and "fragment_ok cs ov ps (length chunks) (dc_text c)"
  shows "\<forall>i < length (chunks @ [c]). fragment_ok cs ov ps i (dc_text ((chunks @ [c]) ! i))"
  using assms by (simp add: nth_append less_Suc_eq)

lemma step_ok:
  assumes "bounded_state cs ov ps st" and "p \<in> set ps"
  shows "bounded_state cs ov ps (chunk_step cs ov src st p)"
proof -
  obtain chunks cur cid where st: "st = (chunks, cur, cid)"
    by (cases st) auto
  from assms(1) have fr: "\<forall>i < length chunks. fragment_ok cs ov ps i (dc_text (chunks ! i))"
    and acc: "acc_ok cs ov ps (length chunks) cur"
    by (simp_all add: bounded_state_def st)
  show ?thesis
  proof (cases "len cur + len p > cs")
    case over: True
    show ?thesis
    proof (cases "cur = []")
      case True
      with over have "chunk_step cs ov src st p = (chunks, p, cid)"
        by (simp add: st)
      moreover have "acc_ok cs ov ps (length chunks) p"
        using assms(2) unfolding acc_ok_def by blast
      ultimately show ?thesis using fr by (simp add: bounded_state_def)
    next
      case False
      define c where "c = make_chunk src cid cur"
      have "fragment_ok cs ov ps (length chunks) (dc_text c)"
        using emit_ok [OF acc False] by (simp add: c_def)
      with fr have fr': "\<forall>i < length (chunks @ [c]).
          fragment_ok cs ov ps i (dc_text ((chunks @ [c]) ! i))"
        by (rule fragments_snoc)
      obtain cur' where step: "chunk_step cs ov src st p = (chunks @ [c], cur', cid + 1)"
        and cur': "ov > 0 \<or> cur' = p"
        using over False by (cases "ov > 0") (simp_all add: st c_def Let_def)
      have "acc_ok cs ov ps (length (chunks @ [c])) cur'"
        using cur' assms(2) unfolding acc_ok_def by auto
      with fr' show ?thesis unfolding step bounded_state_def by simp
    qed
  next
    case fits: False
    show ?thesis
    proof (cases "cur = []")
      case True
      with fits have "chunk_step cs ov src st p = (chunks, p, cid)"
        by (simp add: st)
      moreover have "acc_ok cs ov ps (length chunks) p"
        using assms(2) unfolding acc_ok_def by blast
      ultimately show ?thesis using fr by (simp add: bounded_state_def)
    next
      case False
      with fits have step: "chunk_step cs ov src st p = (chunks, cur @ [NL, NL] @ p, cid)"
        by (simp add: st)
      have "len (cur @ [NL, NL] @ p) \<le> cs + 2"
        using fits by simp
      then have "acc_ok cs ov ps (length chunks) (cur @ [NL, NL] @ p)"
        unfolding acc_ok_def by blast
      with fr show ?thesis unfolding step bounded_state_def by simp
    qed
  qed
qed

lemma loop_ok:
  "bounded_state cs ov ps st \<Longrightarrow> set qs \<subseteq> set ps \<Longrightarrow>
   bounded_state cs ov ps (chunk_loop cs ov src st qs)"
  by (induction qs arbitrary: st) (simp_all add: step_ok)

lemma finish_ok:
  assumes "bounded_state cs ov ps st"
  shows "\<forall>i < length (chunk_finish src st).
           fragment_ok cs ov ps i (dc_text (chunk_finish src st ! i))"
proof -
  obtain chunks cur cid where st: "st = (chunks, cur, cid)"
    by (cases st) auto
  from assms have fr: "\<forall>i < length chunks. fragment_ok cs ov ps i (dc_text (chunks ! i))"
    and acc: "acc_ok cs ov ps (length chunks) cur"
    by (simp_all add: bounded_state_def st)
  show ?thesis
  proof (cases "strip cur = []")
    case True
    with fr show ?thesis by (simp add: st)
  next
    case False
    then have "cur \<noteq> []" by (auto simp: strip_def)
    from emit_ok [OF acc this]
    have "fragment_ok cs ov ps (length chunks) (dc_text (make_chunk src cid cur))"
      by simp
    with fr have "\<forall>i < length (chunks @ [make_chunk src cid cur]).
        fragment_ok cs ov ps i (dc_text ((chunks @ [make_chunk src cid cur]) ! i))"
      by (rule fragments_snoc)
    with False show ?thesis by (simp add: st)
  qed
qed

lemma chunk_text_ok:
  assumes "i < length (chunk_text cs ov t src)"
  shows "fragment_ok cs ov (split_sep [NL, NL] t) i (dc_text (chunk_text cs ov t src ! i))"
proof -
  have "bounded_state cs ov (split_sep [NL, NL] t) ([], [], 0)"
    by (simp add: bounded_state_def acc_ok_def)
  then have "bounded_state cs ov (split_sep [NL, NL] t)
      (chunk_loop cs ov src ([], [], 0) (split_sep [NL, NL] t))"
    by (rule loop_ok) simp
  from finish_ok [OF this, of src] assms show ?thesis
    by (simp add: chunk_text_def Let_def)
qed

text \<open>
  On an arbitrary text the size check bounds the sum of the lengths of the accumulator
  and of the paragraph; it counts neither the blank-line separator put between them nor
  the overlap words put before the paragraph. Every fragment text is then at most
  \<open>chunk_size\<close> long, or holds several paragraphs and is at most \<open>chunk_size + 2\<close> long,
  or is the trimmed text of a single paragraph longer than \<open>chunk_size\<close>, or comes after
  the first fragment with a positive overlap.
\<close>

lemma chunk_size_bound_any_text:
  assumes "i < length (chunk_text chunk_size chunk_overlap t source)"
  shows "len (dc_text (chunk_text chunk_size chunk_overlap t source ! i)) \<le> chunk_size
     \<or> (\<exists>p \<in> set (split_sep [NL, NL] t).
           len p > chunk_size
           \<and> dc_text (chunk_text chunk_size chunk_overlap t source ! i) = strip p)
     \<or> (contains_str [NL, NL] (dc_text (chunk_text chunk_size chunk_overlap t source ! i))
         \<and> len (dc_text (chunk_text chunk_size chunk_overlap t source ! i)) \<le> chunk_size + 2)
     \<or> (chunk_overlap > 0 \<and> 1 \<le> i)"
  using chunk_text_ok [OF assms] unfolding fragment_ok_def .

text \<open>
  Both exceptions occur on a text with blank lines: with a maximum of 10 and an overlap of
  one word, the paragraphs \<open>aaaaa\<close>, \<open>bbbbb\<close> and \<open>cccccc\<close> (none longer than 10) give two
  fragments of 12 characters, the first by the separator and the second by the overlap
  word.
\<close>

lemma blank_lines_exceed_bound:
  "map (length \<circ> dc_text)
     (chunk_text 10 1
        (ascii ''aaaaa'' @ [NL, NL] @ ascii ''bbbbb'' @ [NL, NL] @ ascii ''cccccc'') (ascii ''doc''))
     = [12, 12]
   \<and> map length
       (split_sep [NL, NL] (ascii ''aaaaa'' @ [NL, NL] @ ascii ''bbbbb'' @ [NL, NL] @ ascii ''cccccc''))
     = [5, 5, 6]"
  by (simp add: eval_defs split_ws.simps)

section \<open>The overlap between consecutive fragments\<close>

lemma last_words_drop: "last_words n ws = drop (length ws - n) ws"
  by (simp add: last_words_def rev_take)

lemma overlap_slice:
  assumes "ov > 0"
  shows "(if len ws > ov then slice_last ov ws else ws) = last_words (nat ov) ws"
proof (cases "len ws > ov")
  case True
  with assms have "nat (max 0 (len ws - ov)) = length ws - nat ov" by simp
  with True show ?thesis by (simp add: slice_last_def last_words_drop)
next
  case False
  with assms have "length ws - nat ov = 0" by simp
  with False show ?thesis by (simp add: last_words_drop)
qed

lemma strip_nonempty:
  assumes "x \<in> set s" and "\<not> isspace x"
  shows "strip s \<noteq> []"
proof -
  have "dropWhile isspace s \<noteq> []"
    using assms by (auto simp: dropWhile_eq_Nil_conv)
  then have "\<not> isspace (hd (dropWhile isspace s))"
    by (rule hd_dropWhile)
  moreover have "hd (dropWhile isspace s) \<in> set (rev (dropWhile isspace s))"
    using \<open>dropWhile isspace s \<noteq> []\<close> by simp
  ultimately have "dropWhile isspace (rev (dropWhile isspace s)) \<noteq> []"
    by (auto simp: dropWhile_eq_Nil_conv)
  then show ?thesis by (simp add: strip_def)
qed

lemma prefix_strip:
  assumes "prefix X A" and "X \<noteq> []" and "\<not> isspace (hd X)" and "\<not> isspace (last X)"
  shows "prefix X (strip A)"
proof -
  from assms(1) obtain B where A: "A = X @ B" by (auto simp: prefix_def)
  have "hd (X @ B) = hd X" using assms(2) by simp
  with assms(3) have l: "dropWhile isspace (X @ B) = X @ B"
    by (simp only: dropWhile_eq_self_iff) simp
  have r: "dropWhile isspace (rev X) = rev X"
    using assms(2,4) by (simp add: dropWhile_eq_self_iff hd_rev)
  show ?thesis
  proof (cases "\<forall>y \<in> set (rev B). isspace y")
    case True
    then have "dropWhile isspace (rev B @ rev X) = dropWhile isspace (rev X)"
      by (intro dropWhile_append2) simp
    with r have "strip A = X" by (simp add: strip_def A l)
    then show ?thesis by simp
  next
    case False
    then obtain y where "y \<in> set (rev B)" "\<not> isspace y" by blast
    then have "dropWhile isspace (rev B @ rev X) = dropWhile isspace (rev B) @ rev X"
      by (rule dropWhile_append1)
    then have "strip A = X @ rev (dropWhile isspace (rev B))"
      by (simp add: strip_def A l)
    then show ?thesis by simp
  qed
qed

lemma split_ws_Nil: "dropWhile isspace s = [] \<Longrightarrow> split_ws s = []"
  by (subst split_ws.simps) (simp only: list.case)

lemma split_ws_Cons:
  "dropWhile isspace s = c # cs \<Longrightarrow>
   split_ws s = takeWhile (\<lambda>x. \<not> isspace x) (c # cs)
                  # split_ws (dropWhile (\<lambda>x. \<not> isspace x) (c # cs))"
  by (subst split_ws.simps) (simp only: list.case)

lemma split_ws_words:
  "w \<in> set (split_ws s) \<Longrightarrow> w \<noteq> [] \<and> (\<forall>x \<in> set w. \<not> isspace x)"
proof (induction s rule: split_ws.induct)
  case (1 s)
  show ?case
  proof (cases "dropWhile isspace s")
    case Nil
    with 1(2) show ?thesis by (simp only: split_ws_Nil) simp
  next
    case (Cons c cs)
    have c: "\<not> isspace c"
      using hd_dropWhile [of isspace s] Cons by simp
    from 1(2) have "w \<in> set (takeWhile (\<lambda>x. \<not> isspace x) (c # cs)
                  # split_ws (dropWhile (\<lambda>x. \<not> isspace x) (c # cs)))"
      by (simp only: split_ws_Cons [OF Cons])
    then consider "w = takeWhile (\<lambda>x. \<not> isspace x) (c # cs)"
      | "w \<in> set (split_ws (dropWhile (\<lambda>x. \<not> isspace x) (c # cs)))"
      by (simp only: set_simps insert_iff) blast
    then show ?thesis
    proof cases
      case 1
      have "\<forall>x \<in> set (takeWhile (\<lambda>x. \<not> isspace x) (c # cs)). \<not> isspace x"
        by (blast dest: set_takeWhileD)
      moreover have "takeWhile (\<lambda>x. \<not> isspace x) (c # cs) \<noteq> []"
        using c by simp
      ultimately show ?thesis unfolding 1 by (rule conjI [rotated])
    next
      case 2
      then show ?thesis by (rule "1.IH" [OF Cons])
    qed
  qed
qed

lemma hd_join:
  assumes "ws \<noteq> []" and "hd ws \<noteq> []"
  shows "hd (join sep ws @ rest) = hd (hd ws)"
proof (cases ws)
  case Nil
  with assms(1) show ?thesis by simp
next
  case (Cons w ws')
  with assms(2) have w: "w \<noteq> []" by simp
  show ?thesis
  proof (cases ws')
    case Nil
    with Cons w show ?thesis by simp
  next
    case (Cons v vs)
    with \<open>ws = w # ws'\<close> w show ?thesis by simp
  qed
qed

lemma last_words_nonempty:
  assumes "0 < n" and "ws \<noteq> []"
  shows "last_words n ws \<noteq> [] \<and> set (last_words n ws) \<subseteq> set ws"
proof -
  from assms have "length ws - n < length ws" by (cases ws) simp_all
  then have "last_words n ws \<noteq> []" by (simp add: last_words_drop)
  moreover have "set (last_words n ws) \<subseteq> set ws"
    unfolding last_words_drop by (rule set_drop_subset)
  ultimately show ?thesis by (rule conjI)
qed

lemma chunk_step_cases:
  obtains (emit) cur' where "cur \<noteq> []" "len cur + len p > cs"
      "chunk_step cs ov src (chunks, cur, cid) p
         = (chunks @ [make_chunk src cid cur], cur', cid + 1)"
  | (keep) cur' where "prefix cur cur'"
      "chunk_step cs ov src (chunks, cur, cid) p = (chunks, cur', cid)"
proof (cases "cur \<noteq> [] \<and> len cur + len p > cs")
  case True
  then have "\<exists>cur'. chunk_step cs ov src (chunks, cur, cid) p
      = (chunks @ [make_chunk src cid cur], cur', cid + 1)"
    by (simp add: Let_def)
  with True emit show ?thesis by blast
next
  case False
  then have "\<exists>cur'. prefix cur cur'
      \<and> chunk_step cs ov src (chunks, cur, cid) p = (chunks, cur', cid)"
    by (cases "cur = []") auto
  with keep show ?thesis by blast
qed

lemma run_extends:
  "\<exists>new. chunk_finish src (chunk_loop cs ov src (chunks, cur, cid) ps) = chunks @ new"
proof (induction ps arbitrary: chunks cur cid)
  case Nil
  show ?case by simp
next
  case (Cons p ps)
  show ?case
  proof (cases rule: chunk_step_cases [where cur = cur and p = p and cs = cs and ov = ov and src = src
        and chunks = chunks and cid = cid])
    case (emit cur')
    from Cons [of "chunks @ [make_chunk src cid cur]" cur' "cid + 1"]
    show ?thesis by (auto simp: emit(3) simp del: chunk_step.simps)
  next
    case (keep cur')
    from Cons [of chunks cur' cid] show ?thesis by (simp add: keep(2) del: chunk_step.simps)
  qed
qed

lemma next_text:
  "length chunks < length (chunk_finish src (chunk_loop cs ov src (chunks, cur, cid) ps)) \<Longrightarrow>
   \<exists>A. prefix cur A
     \<and> dc_text (chunk_finish src (chunk_loop cs ov src (chunks, cur, cid) ps) ! length chunks)
         = strip A"
proof (induction ps arbitrary: chunks cur cid)
  case Nil
  then have "strip cur \<noteq> []" by (simp split: if_splits)
  then have "dc_text (chunk_finish src (chunk_loop cs ov src (chunks, cur, cid) [])
      ! length chunks) = strip cur"
    by simp
  then show ?case by blast
next
  case (Cons p ps)
  show ?case
  proof (cases rule: chunk_step_cases [where cur = cur and p = p and cs = cs and ov = ov and src = src
        and chunks = chunks and cid = cid])
    case (emit cur')
    obtain new where "chunk_finish src
        (chunk_loop cs ov src (chunks @ [make_chunk src cid cur], cur', cid + 1) ps)
        = (chunks @ [make_chunk src cid cur]) @ new"
      using run_extends by blast
    then have "dc_text (chunk_finish src (chunk_loop cs ov src (chunks, cur, cid) (p # ps))
      ! length chunks) = strip cur"
      by (simp add: emit(3) del: chunk_step.simps)
    then show ?thesis by blast
  next
    case (keep cur')
    from Cons.prems have "length chunks
        < length (chunk_finish src (chunk_loop cs ov src (chunks, cur', cid) ps))"
      by (simp add: keep(2) del: chunk_step.simps)
    from Cons.IH [OF this] obtain A where "prefix cur' A"
      and "dc_text (chunk_finish src (chunk_loop cs ov src (chunks, cur', cid) ps)
             ! length chunks) = strip A"
      by blast
    with keep(1) have "prefix cur A
      \<and> dc_text (chunk_finish src (chunk_loop cs ov src (chunks, cur, cid) (p # ps))
           ! length chunks) = strip A"
      by (simp add: keep(2) del: chunk_step.simps)
    then show ?thesis by blast
  qed
qed

lemma next_exists:
  "x \<in> set cur \<Longrightarrow> \<not> isspace x \<Longrightarrow>
   length chunks < length (chunk_finish src (chunk_loop cs ov src (chunks, cur, cid) ps))"
proof (induction ps arbitrary: chunks cur cid)
  case Nil
  then have "strip cur \<noteq> []" by (rule strip_nonempty)
  then show ?case by simp
next
  case (Cons p ps)
  show ?case
  proof (cases rule: chunk_step_cases [where cur = cur and p = p and cs = cs and ov = ov and src = src
        and chunks = chunks and cid = cid])
    case (emit cur')
    obtain new where "chunk_finish src
        (chunk_loop cs ov src (chunks @ [make_chunk src cid cur], cur', cid + 1) ps)
        = (chunks @ [make_chunk src cid cur]) @ new"
      using run_extends by blast
    then show ?thesis by (simp add: emit(3) del: chunk_step.simps)
  next
    case (keep cur')
    from keep(1) Cons.prems(1) have "x \<in> set cur'"
      using set_mono_prefix by blast
    from Cons.IH [OF this Cons.prems(2)] show ?thesis by (simp add: keep(2) del: chunk_step.simps)
  qed
qed

text \<open>
  C7, as the code has it. When the loop emits a fragment and the overlap is positive, the
  next accumulator is the seed: the last \<open>chunk_overlap\<close> words of the emitted accumulator
  (all its words if there are fewer), joined by single spaces, then a space, then the
  current paragraph. The text of the next fragment, when there is one, is the trimmed
  form of an accumulator that starts with the seed. It starts with the seed itself, and
  the next fragment exists, when the emitted accumulator has a word and the paragraph is
  not empty and does not end in white space.
\<close>

theorem overlap_seed:
  assumes ov: "chunk_overlap > 0" and ne: "current_chunk \<noteq> []"
    and over: "len current_chunk + len paragraph > chunk_size"
  shows "let seed = join [SP] (last_words (nat chunk_overlap) (split_ws current_chunk))
                      @ [SP] @ paragraph;
             result = chunk_finish source
                        (chunk_loop chunk_size chunk_overlap source
                           (chunks, current_chunk, chunk_id) (paragraph # paragraphs))
         in chunk_step chunk_size chunk_overlap source (chunks, current_chunk, chunk_id) paragraph
              = (chunks @ [make_chunk source chunk_id current_chunk], seed, chunk_id + 1)
          \<and> (length chunks + 1 < length result \<longrightarrow>
                (\<exists>A. prefix seed A \<and> dc_text (result ! (length chunks + 1)) = strip A))
          \<and> (split_ws current_chunk \<noteq> [] \<and> paragraph \<noteq> [] \<and> \<not> isspace (last paragraph) \<longrightarrow>
                length chunks + 1 < length result
                \<and> prefix seed (dc_text (result ! (length chunks + 1))))"
proof -
  define ws where "ws = last_words (nat chunk_overlap) (split_ws current_chunk)"
  define seed where "seed = join [SP] ws @ [SP] @ paragraph"
  define c where "c = make_chunk source chunk_id current_chunk"
  define result where "result = chunk_finish source
      (chunk_loop chunk_size chunk_overlap source (chunks, current_chunk, chunk_id)
         (paragraph # paragraphs))"
  have step: "chunk_step chunk_size chunk_overlap source (chunks, current_chunk, chunk_id)
      paragraph = (chunks @ [c], seed, chunk_id + 1)"
    using ov ne over overlap_slice [OF ov, of "split_ws current_chunk"]
    by (simp add: Let_def c_def seed_def ws_def)
  have result: "result = chunk_finish source
      (chunk_loop chunk_size chunk_overlap source (chunks @ [c], seed, chunk_id + 1) paragraphs)"
    unfolding result_def by (simp add: step del: chunk_step.simps)
  have nxt: "\<exists>A. prefix seed A \<and> dc_text (result ! (length chunks + 1)) = strip A"
    if "length chunks + 1 < length result"
    using that next_text [of "chunks @ [c]" source chunk_size chunk_overlap seed "chunk_id + 1"
        paragraphs]
    unfolding result by simp
  have exact: "length chunks + 1 < length result
      \<and> prefix seed (dc_text (result ! (length chunks + 1)))"
    if w: "split_ws current_chunk \<noteq> []" and p: "paragraph \<noteq> []"
      and l: "\<not> isspace (last paragraph)"
  proof -
    from last_words_nonempty [of "nat chunk_overlap" "split_ws current_chunk"] ov w
    have ws: "ws \<noteq> []" and sub: "set ws \<subseteq> set (split_ws current_chunk)"
      by (simp_all add: ws_def)
    from ws sub have "hd ws \<in> set (split_ws current_chunk)" by auto
    then have hw: "hd ws \<noteq> []" and nw: "\<forall>x \<in> set (hd ws). \<not> isspace x"
      using split_ws_words by blast+
    have hd_seed: "hd seed = hd (hd ws)"
      unfolding seed_def using ws hw by (rule hd_join)
    from hw nw have h: "\<not> isspace (hd seed)" by (simp add: hd_seed)
    have seed_ne: "seed \<noteq> []" by (simp add: seed_def)
    have last_seed: "last seed = last paragraph" using p by (simp add: seed_def)
    have "hd seed \<in> set seed" using seed_ne by simp
    from next_exists [OF this h, of "chunks @ [c]" source chunk_size chunk_overlap
        "chunk_id + 1" paragraphs]
    have len: "length chunks + 1 < length result"
      unfolding result by simp
    from nxt [OF len] obtain A where A: "prefix seed A"
      and t: "dc_text (result ! (length chunks + 1)) = strip A"
      by blast
    from l have "\<not> isspace (last seed)" by (simp add: last_seed)
    from prefix_strip [OF A seed_ne h this] len show ?thesis unfolding t by (rule conjI [rotated])
  qed
  from step nxt exact show ?thesis
    unfolding Let_def result_def [symmetric] seed_def [symmetric] ws_def [symmetric]
      c_def [symmetric]
    by blast
qed

text \<open>
  The claim as stated fails where the trimming cuts into the seed: with a maximum of 4 and
  an overlap of one word, the text \<open>aaa\<close>, a blank line, \<open>bbb\<close> and a final newline seeds
  the accumulator with \<open>aaa bbb\<close> and the newline, and the second fragment is \<open>aaa bbb\<close>,
  which does not start with the seed.
\<close>

theorem next_fragment_start_counterexample:
  "chunk_step 4 1 (ascii ''doc'') ([], ascii ''aaa'', 0) (ascii ''bbb'' @ [NL])
     = ([make_chunk (ascii ''doc'') 0 (ascii ''aaa'')], ascii ''aaa bbb'' @ [NL], 1)
   \<and> map dc_text (chunk_text 4 1 (ascii ''aaa'' @ [NL, NL] @ ascii ''bbb'' @ [NL]) (ascii ''doc''))
       = [ascii ''aaa'', ascii ''aaa bbb'']
   \<and> \<not> prefix (ascii ''aaa bbb'' @ [NL]) (ascii ''aaa bbb'')"
  by (simp add: eval_defs split_ws.simps)

theorem overlap_seed_witness:
  "(1::int) > 0 \<and> ascii ''aaa'' \<noteq> [] \<and> len (ascii ''aaa'') + len (ascii ''bbb'') > 4
   \<and> split_ws (ascii ''aaa'') \<noteq> [] \<and> ascii ''bbb'' \<noteq> [] \<and> \<not> isspace (last (ascii ''bbb''))
   \<and> (let seed = join [SP] (last_words (nat 1) (split_ws (ascii ''aaa''))) @ [SP] @ ascii ''bbb'';
           result = chunk_finish (ascii ''doc'')
                      (chunk_loop 4 1 (ascii ''doc'') ([], ascii ''aaa'', 0) (ascii ''bbb'' # []))
       in chunk_step 4 1 (ascii ''doc'') ([], ascii ''aaa'', 0) (ascii ''bbb'')
            = ([] @ [make_chunk (ascii ''doc'') 0 (ascii ''aaa'')], seed, 0 + 1)
        \<and> (length ([] :: DocumentChunk list) + 1 < length result \<longrightarrow>
              (\<exists>A. prefix seed A
                 \<and> dc_text (result ! (length ([] :: DocumentChunk list) + 1)) = strip A))
        \<and> (split_ws (ascii ''aaa'') \<noteq> [] \<and> ascii ''bbb'' \<noteq> [] \<and> \<not> isspace (last (ascii ''bbb'')) \<longrightarrow>
              length ([] :: DocumentChunk list) + 1 < length result
              \<and> prefix seed (dc_text (result ! (length ([] :: DocumentChunk list) + 1)))))"
proof -
  have h1: "(1::int) > 0" by simp
  have h2: "ascii ''aaa'' \<noteq> []" by (simp add: eval_defs)
  have h3: "len (ascii ''aaa'') + len (ascii ''bbb'') > 4" by (simp add: eval_defs)
  have a: "split_ws (ascii ''aaa'') \<noteq> [] \<and> ascii ''bbb'' \<noteq> []
      \<and> \<not> isspace (last (ascii ''bbb''))"
    by (simp add: eval_defs split_ws.simps)
  note inst = overlap_seed [OF h1 h2 h3, where source = "ascii ''doc''" and chunks = "[]"
      and chunk_id = 0 and paragraphs = "[]"]
  from h1 h2 h3 a inst show ?thesis by blast
qed

section \<open>The normaliser on texts without null characters\<close>

lemma spaced_ok_Cons:
  "spaced_ok (c # r) \<longleftrightarrow>
     (isspace c \<longrightarrow> c = SP \<and> (r \<noteq> [] \<longrightarrow> \<not> isspace (hd r))) \<and> spaced_ok r"
  by (cases r) auto

lemma hd_re_sub_runs:
  "s \<noteq> [] \<Longrightarrow> \<not> isspace (hd s) \<Longrightarrow>
   re_sub_runs isspace [SP] s \<noteq> [] \<and> hd (re_sub_runs isspace [SP] s) = hd s"
  by (cases s) simp_all

lemma re_sub_runs_Nil: "re_sub_runs P r s = [] \<Longrightarrow> r \<noteq> [] \<Longrightarrow> s = []"
  by (cases s) (simp_all split: if_splits)

lemma spaced_ok_collapse: "spaced_ok (re_sub_runs isspace [SP] s)"
proof (induction isspace "[SP]" s rule: re_sub_runs.induct)
  case 1
  show ?case by simp
next
  case (2 c cs)
  show ?case
  proof (cases "isspace c")
    case True
    define d where "d = dropWhile isspace cs"
    have r: "re_sub_runs isspace [SP] (c # cs) = SP # re_sub_runs isspace [SP] d"
      using True by (simp add: d_def)
    have ok: "spaced_ok (re_sub_runs isspace [SP] d)"
      unfolding d_def using 2(1) [OF True] .
    have "\<not> isspace (hd (re_sub_runs isspace [SP] d))"
      if ne: "re_sub_runs isspace [SP] d \<noteq> []"
    proof -
      from ne have "d \<noteq> []" by auto
      then have "\<not> isspace (hd d)" unfolding d_def by (rule hd_dropWhile)
      with \<open>d \<noteq> []\<close> show ?thesis using hd_re_sub_runs [of d] by simp
    qed
    with ok show ?thesis unfolding r by (simp only: spaced_ok_Cons) simp
  next
    case False
    then have r: "re_sub_runs isspace [SP] (c # cs) = c # re_sub_runs isspace [SP] cs"
      by simp
    from 2(2) [OF False] False show ?thesis unfolding r by (simp only: spaced_ok_Cons) simp
  qed
qed

lemma collapse_spaced_ok: "spaced_ok t \<Longrightarrow> re_sub_runs isspace [SP] t = t"
proof (induction t)
  case Nil
  show ?case by simp
next
  case (Cons c r)
  from Cons.prems have c: "isspace c \<longrightarrow> c = SP \<and> (r \<noteq> [] \<longrightarrow> \<not> isspace (hd r))"
    unfolding spaced_ok_Cons by blast
  from Cons.prems have ok: "spaced_ok r"
    unfolding spaced_ok_Cons by blast
  show ?case
  proof (cases "isspace c")
    case True
    with c have "c = SP" and "r \<noteq> [] \<longrightarrow> \<not> isspace (hd r)" by simp_all
    then have "dropWhile isspace r = r" by (auto simp: dropWhile_eq_self_iff)
    with True \<open>c = SP\<close> Cons.IH [OF ok] show ?thesis by simp
  next
    case False
    with Cons.IH [OF ok] show ?thesis by simp
  qed
qed

lemma spaced_ok_append: "spaced_ok (xs @ ys) \<Longrightarrow> spaced_ok xs \<and> spaced_ok ys"
proof (induction xs)
  case Nil
  then show ?case by simp
next
  case (Cons c xs)
  from Cons.prems have c: "isspace c \<longrightarrow> c = SP \<and> (xs @ ys \<noteq> [] \<longrightarrow> \<not> isspace (hd (xs @ ys)))"
    unfolding append_Cons spaced_ok_Cons by blast
  from Cons.prems have ok: "spaced_ok (xs @ ys)"
    by (simp only: append_Cons spaced_ok_Cons)
  from Cons.IH [OF ok] have xs: "spaced_ok xs" and ys: "spaced_ok ys" by simp_all
  from c have "isspace c \<longrightarrow> c = SP \<and> (xs \<noteq> [] \<longrightarrow> \<not> isspace (hd xs))"
    by auto
  with xs have "spaced_ok (c # xs)" by (simp only: spaced_ok_Cons)
  with ys show ?case by simp
qed

lemma spaced_ok_no_double_space: "spaced_ok t \<Longrightarrow> \<not> contains_str [SP, SP] t"
proof (induction t)
  case Nil
  show ?case by simp
next
  case (Cons c r)
  from Cons.prems have c: "isspace c \<longrightarrow> c = SP \<and> (r \<noteq> [] \<longrightarrow> \<not> isspace (hd r))"
    unfolding spaced_ok_Cons by blast
  from Cons.prems have ok: "spaced_ok r"
    unfolding spaced_ok_Cons by blast
  have "isspace SP" by (simp add: isspace_def SP_def)
  with c have "\<not> prefix [SP, SP] (c # r)" by (cases r) auto
  with Cons.IH [OF ok] show ?case by simp
qed

lemma strip_decomp: "\<exists>a b. u = a @ strip u @ b"
proof -
  define d where "d = dropWhile isspace u"
  have "u = takeWhile isspace u @ d"
    unfolding d_def by simp
  moreover have "rev d = takeWhile isspace (rev d) @ dropWhile isspace (rev d)"
    by simp
  then have "d = rev (dropWhile isspace (rev d)) @ rev (takeWhile isspace (rev d))"
    by (metis rev_append rev_rev_ident)
  then have "d = strip u @ rev (takeWhile isspace (rev d))"
    unfolding strip_def d_def .
  ultimately have "u = takeWhile isspace u @ strip u @ rev (takeWhile isspace (rev d))"
    by simp
  then show ?thesis by blast
qed

lemma strip_ends:
  assumes "strip u \<noteq> []"
  shows "\<not> isspace (hd (strip u)) \<and> \<not> isspace (last (strip u))"
proof -
  define d where "d = dropWhile isspace u"
  define e where "e = dropWhile isspace (rev d)"
  have s: "strip u = rev e"
    unfolding strip_def e_def d_def ..
  with assms have e: "e \<noteq> []" by simp
  then have he: "\<not> isspace (hd e)"
    unfolding e_def by (rule hd_dropWhile)
  have "rev d = takeWhile isspace (rev d) @ e"
    unfolding e_def by simp
  with e have "last (rev d) = last e"
    by (metis last_appendR)
  moreover have "d \<noteq> []" using e unfolding e_def by auto
  ultimately have "last e = hd d" by (simp add: last_rev)
  moreover have "\<not> isspace (hd d)"
    using \<open>d \<noteq> []\<close> unfolding d_def by (rule hd_dropWhile)
  ultimately have "\<not> isspace (last e)" by simp
  with he e show ?thesis unfolding s by (simp add: hd_rev last_rev)
qed

lemma strip_fixed:
  assumes "\<not> isspace (hd t)" and "\<not> isspace (last t)"
  shows "strip t = t"
proof (cases "t = []")
  case True
  then show ?thesis by (simp add: strip_def)
next
  case False
  from assms(1) have "dropWhile isspace t = t"
    by (simp add: dropWhile_eq_self_iff)
  moreover from assms(2) False have "dropWhile isspace (rev t) = rev t"
    by (simp add: dropWhile_eq_self_iff hd_rev)
  ultimately show ?thesis by (simp add: strip_def)
qed

lemma strip_strip: "strip (strip u) = strip u"
proof (cases "strip u = []")
  case True
  have "strip [] = []" by (simp add: strip_def)
  then show ?thesis by (simp only: True)
next
  case False
  from strip_ends [OF this] show ?thesis by (simp add: strip_fixed)
qed

lemma clean_text_no_null: "NUL \<notin> set (clean_text s)"
proof -
  have "NUL \<notin> set (collapsed s)" by (simp add: collapsed_def)
  with set_strip [of "collapsed s"] have "NUL \<notin> set (strip (collapsed s))" by blast
  then show ?thesis by (simp add: clean_text_eq)
qed

lemma clean_text_empty_or_long: "clean_text s = [] \<or> 10 < length (clean_text s)"
  by (simp add: clean_text_eq)

lemma clean_text_Nil: "clean_text [] = []"
  by (simp add: clean_text_eq collapsed_def strip_def)

lemma collapsed_without_null:
  assumes "NUL \<notin> set s"
  shows "collapsed s = re_sub_runs isspace [SP] s"
proof -
  have "NUL \<notin> set (re_sub_runs isspace [SP] s)"
    using set_re_sub_runs [of isspace "[SP]" s] assms by (auto simp: NUL_def SP_def)
  then have "\<forall>c \<in> set (re_sub_runs isspace [SP] s). c \<noteq> NUL" by blast
  then show ?thesis unfolding collapsed_def by (simp only: filter_True)
qed

lemma spaced_ok_strip: "spaced_ok u \<Longrightarrow> spaced_ok (strip u)"
proof -
  assume u: "spaced_ok u"
  obtain a b where "u = a @ strip u @ b" using strip_decomp by blast
  with u have "spaced_ok (a @ strip u @ b)" by simp
  then have "spaced_ok (strip u @ b)" using spaced_ok_append by blast
  then show ?thesis using spaced_ok_append by blast
qed

lemma clean_text_without_null:
  assumes "NUL \<notin> set s"
  shows "spaced_ok (clean_text s)"
proof -
  have "spaced_ok (strip (collapsed s))"
    unfolding collapsed_without_null [OF assms]
    using spaced_ok_collapse by (rule spaced_ok_strip)
  then show ?thesis by (simp add: clean_text_eq)
qed

lemma clean_text_single_spaces_without_null:
  "NUL \<notin> set s \<Longrightarrow> \<not> contains_str [SP, SP] (clean_text s)"
  by (rule spaced_ok_no_double_space) (rule clean_text_without_null)

lemma clean_text_idempotent_without_null:
  assumes "NUL \<notin> set s"
  shows "clean_text (clean_text s) = clean_text s"
proof (cases "len (strip (collapsed s)) > 10")
  case False
  then have "clean_text s = []" by (simp only: clean_text_eq if_False)
  then show ?thesis by (simp add: clean_text_Nil)
next
  case True
  define t where "t = strip (collapsed s)"
  from True have ct: "clean_text s = t" unfolding t_def by (simp only: clean_text_eq if_True)
  have ok: "spaced_ok t" using clean_text_without_null [OF assms] unfolding ct .
  have nn: "NUL \<notin> set t" using clean_text_no_null [of s] unfolding ct .
  have "collapsed t = re_sub_runs isspace [SP] t" using nn by (rule collapsed_without_null)
  also have "\<dots> = t" using ok by (rule collapse_spaced_ok)
  finally have c: "collapsed t = t" .
  have st: "strip t = t" unfolding t_def by (rule strip_strip)
  have "clean_text t = t"
    using True by (simp add: clean_text_eq [of t] c st) (simp add: t_def)
  then show ?thesis by (simp only: ct)
qed

section \<open>The chunker on normalised text\<close>

lemma contains_str_NL: "contains_str [NL, NL] t \<Longrightarrow> NL \<in> set t"
  by (induction t) auto

lemma split_sep_no_occurrence:
  "sep \<noteq> [] \<Longrightarrow> \<not> contains_str sep t \<Longrightarrow> split_sep sep t = [t]"
proof (induction t)
  case Nil
  show ?case by simp
next
  case (Cons c cs)
  from Cons.prems(2) have np: "\<not> prefix sep (c # cs)" and nc: "\<not> contains_str sep cs"
    by simp_all
  from Cons.IH [OF Cons.prems(1) nc] np show ?case by simp
qed

lemma chunk_text_no_blank_line:
  "\<not> contains_str [NL, NL] t \<Longrightarrow> chunk_text cs ov t src = chunk_finish src ([], t, 0)"
  by (simp add: chunk_text_def split_sep_no_occurrence)

lemma single_paragraph_bound:
  assumes nb: "\<not> contains_str [NL, NL] t"
    and i: "i < length (chunk_text cs ov t src)"
  shows "len (dc_text (chunk_text cs ov t src ! i)) \<le> cs
     \<or> (\<exists>p \<in> set (split_sep [NL, NL] t).
           len p > cs \<and> dc_text (chunk_text cs ov t src ! i) = strip p)"
proof -
  have ct: "chunk_text cs ov t src = chunk_finish src ([], t, 0)"
    using nb by (rule chunk_text_no_blank_line)
  have sp: "split_sep [NL, NL] t = [t]"
    using nb by (intro split_sep_no_occurrence) simp
  from i have ne: "strip t \<noteq> []" and i0: "i = 0"
    unfolding ct by (simp_all split: if_splits)
  from ne have tx: "dc_text (chunk_text cs ov t src ! i) = strip t"
    unfolding ct i0 by simp
  show ?thesis
  proof (cases "len t > cs")
    case True
    then show ?thesis unfolding tx sp by simp
  next
    case False
    with length_strip [of t] have "len (strip t) \<le> cs" by simp
    then show ?thesis unfolding tx by (rule disjI1)
  qed
qed

lemma no_blank_line_clean_text: "\<not> contains_str [NL, NL] (clean_text x)"
  using contains_str_NL [of "clean_text x"] no_newline_clean_text [of x] by blast

text \<open>
  C1. For every normalised input text (the output of \<open>clean_text\<close>, and more generally
  every text without a blank-line separator), every source name and every configuration,
  each fragment returned by the chunker has a text of at most \<open>chunk_size\<close> characters,
  unless it is the trimmed text of a single paragraph that alone is longer than
  \<open>chunk_size\<close>.
\<close>

theorem chunk_size_bound:
  "(i < length (chunk_text chunk_size chunk_overlap (clean_text x) source) \<longrightarrow>
      len (dc_text (chunk_text chunk_size chunk_overlap (clean_text x) source ! i)) \<le> chunk_size
      \<or> (\<exists>p \<in> set (split_sep [NL, NL] (clean_text x)).
            len p > chunk_size
            \<and> dc_text (chunk_text chunk_size chunk_overlap (clean_text x) source ! i) = strip p))
   \<and> (\<not> contains_str [NL, NL] t \<and> j < length (chunk_text chunk_size chunk_overlap t source) \<longrightarrow>
      len (dc_text (chunk_text chunk_size chunk_overlap t source ! j)) \<le> chunk_size
      \<or> (\<exists>p \<in> set (split_sep [NL, NL] t).
            len p > chunk_size
            \<and> dc_text (chunk_text chunk_size chunk_overlap t source ! j) = strip p))"
  using single_paragraph_bound [OF no_blank_line_clean_text, of i chunk_size chunk_overlap x source]
    single_paragraph_bound [of t j chunk_size chunk_overlap source]
  by blast

theorem chunk_size_bound_witness:
  "0 < length (chunk_text 10 3 (clean_text (ascii ''  Texto   del procedimiento '')) (ascii ''doc''))
   \<and> \<not> contains_str [NL, NL] (ascii ''aaaaa'' @ [NL] @ ascii ''bbb'')
   \<and> 0 < length (chunk_text 10 3 (ascii ''aaaaa'' @ [NL] @ ascii ''bbb'') (ascii ''doc''))
   \<and> (len (dc_text (chunk_text 10 3 (clean_text (ascii ''  Texto   del procedimiento ''))
                     (ascii ''doc'') ! 0)) \<le> 10
      \<or> (\<exists>p \<in> set (split_sep [NL, NL] (clean_text (ascii ''  Texto   del procedimiento ''))).
            len p > 10
            \<and> dc_text (chunk_text 10 3 (clean_text (ascii ''  Texto   del procedimiento ''))
                         (ascii ''doc'') ! 0) = strip p))
   \<and> (len (dc_text (chunk_text 10 3 (ascii ''aaaaa'' @ [NL] @ ascii ''bbb'') (ascii ''doc'') ! 0))
        \<le> 10
      \<or> (\<exists>p \<in> set (split_sep [NL, NL] (ascii ''aaaaa'' @ [NL] @ ascii ''bbb'')).
            len p > 10
            \<and> dc_text (chunk_text 10 3 (ascii ''aaaaa'' @ [NL] @ ascii ''bbb'') (ascii ''doc'') ! 0)
                = strip p))"
proof -
  have h1: "0 < length (chunk_text 10 3 (clean_text (ascii ''  Texto   del procedimiento ''))
      (ascii ''doc''))"
    by (simp add: eval_defs)
  have h2: "\<not> contains_str [NL, NL] (ascii ''aaaaa'' @ [NL] @ ascii ''bbb'')"
    by (simp add: eval_defs)
  have h3: "0 < length (chunk_text 10 3 (ascii ''aaaaa'' @ [NL] @ ascii ''bbb'') (ascii ''doc''))"
    by (simp add: eval_defs)
  from h1 h2 h3
    chunk_size_bound [of 0 10 3 "ascii ''  Texto   del procedimiento ''" "ascii ''doc''"
      "ascii ''aaaaa'' @ [NL] @ ascii ''bbb''" 0]
  show ?thesis by blast
qed

section \<open>The chunker on blank text\<close>

lemma chunk_text_empty: "chunk_text cs ov [] src = []"
  by (simp add: chunk_text_def strip_def)

lemma chunk_text_blank_no_blank_line:
  "\<not> contains_str [NL, NL] t \<Longrightarrow> strip t = [] \<Longrightarrow> chunk_text cs ov t src = []"
  by (simp add: chunk_text_no_blank_line)

lemma blank_normalized_is_empty:
  assumes "strip (clean_text x) = []"
  shows "clean_text x = []"
proof (cases "len (strip (collapsed x)) > 10")
  case True
  then have ct: "clean_text x = strip (collapsed x)"
    by (simp only: clean_text_eq if_True)
  from assms have "strip (collapsed x) = []"
    unfolding ct strip_strip .
  with True show ?thesis by simp
next
  case False
  then show ?thesis by (simp only: clean_text_eq if_False)
qed

text \<open>
  C5. The chunker is a total function of the text, the source name and the two integers
  of the configuration: the loop runs once over the paragraphs, and none of the operations
  it uses (split, strip, length, slice, join, integer comparison) can raise on strings and
  integers, so there is no failing branch. For a fully blank input it returns no fragment,
  for any configuration: this holds for the empty text, for every blank output of
  \<open>clean_text\<close>, and more generally for every blank text without a blank-line separator.
\<close>

theorem blank_text_no_fragment:
  "chunk_text chunk_size chunk_overlap [] source = []
   \<and> (strip (clean_text x) = [] \<longrightarrow>
        chunk_text chunk_size chunk_overlap (clean_text x) source = [])
   \<and> (\<not> contains_str [NL, NL] t \<and> strip t = [] \<longrightarrow>
        chunk_text chunk_size chunk_overlap t source = [])"
  using chunk_text_empty [of chunk_size chunk_overlap source]
    chunk_text_blank_no_blank_line [OF no_blank_line_clean_text,
      of x chunk_size chunk_overlap source]
    chunk_text_blank_no_blank_line [of t chunk_size chunk_overlap source]
  by blast

theorem blank_text_no_fragment_witness:
  "strip (clean_text (ascii ''   '' @ [NL] @ ascii ''  '')) = []
   \<and> \<not> contains_str [NL, NL] (ascii '' '' @ [NL] @ ascii '' '')
   \<and> strip (ascii '' '' @ [NL] @ ascii '' '') = []
   \<and> chunk_text 1 2 [] (ascii ''doc'') = []
   \<and> chunk_text 1 2 (clean_text (ascii ''   '' @ [NL] @ ascii ''  '')) (ascii ''doc'') = []
   \<and> chunk_text 1 2 (ascii '' '' @ [NL] @ ascii '' '') (ascii ''doc'') = []"
proof -
  have h1: "strip (clean_text (ascii ''   '' @ [NL] @ ascii ''  '')) = []"
    by (simp add: eval_defs)
  have h2: "\<not> contains_str [NL, NL] (ascii '' '' @ [NL] @ ascii '' '')"
    by (simp add: eval_defs)
  have h3: "strip (ascii '' '' @ [NL] @ ascii '' '') = []"
    by (simp add: eval_defs)
  from h1 h2 h3
    blank_text_no_fragment [of 1 2 "ascii ''doc''" "ascii ''   '' @ [NL] @ ascii ''  ''"
      "ascii '' '' @ [NL] @ ascii '' ''"]
  show ?thesis by blast
qed

end
